theory Spec2Isabelle
  imports Main "HOL-Library.Word" "HOL-Library.Sublist"
begin

section \<open>Log tailing of the supervisord client (process.go)\<close>

text \<open>
  The embedding covers \<open>tailLog\<close> (the poll loop writing into an \<open>io.Pipe\<close>) and
  \<open>logChan\<close> (the \<open>bufio\<close> line reader feeding the output channel).

  Go strings are byte sequences: \<open>string\<close> (a \<open>char list\<close>, one \<open>char\<close> per byte).
  \<open>int64\<close> is \<open>64 word\<close>, read signed with \<open>sint\<close>; Go's \<open>int\<close> is taken at its
  64-bit width and is a \<open>64 word\<close> as well. Lengths and counts of strings are natural
  numbers here; a Go string is shorter than \<open>2 ^ 63\<close> bytes.
\<close>

subsection \<open>Values and errors\<close>

text \<open>The elements of the reply slice \<open>ret []any\<close>, as far as the code tells them apart.\<close>

datatype any = AString string | AInt64 "64 word" | ABool bool | ANil

text \<open>
  Error values: \<open>io.EOF\<close> (compared by identity in \<open>logChan\<close>), the two errors that
  \<open>ctx.Err()\<close> returns, and any other error with its description
  (\<open>errors.New s\<close> is \<open>Other s\<close>).
\<close>

datatype go_error = EOF | Canceled | DeadlineExceeded | Other string

fun Error :: "go_error \<Rightarrow> string" where
  "Error EOF = ''EOF''"
| "Error Canceled = ''context canceled''"
| "Error DeadlineExceeded = ''context deadline exceeded''"
| "Error (Other s) = s"

definition nl :: char where
  "nl = CHR 0x0A"

subsection \<open>The string functions the code calls\<close>

text \<open>\<open>strings.Count(s, "\n")\<close> and \<open>strings.Index(s, "\n")\<close>, for a one-byte separator.\<close>

definition Count :: "string \<Rightarrow> char \<Rightarrow> nat" where
  "Count s c = length (filter (\<lambda>x. x = c) s)"

fun Index :: "string \<Rightarrow> char \<Rightarrow> nat option" where
  "Index [] c = None"
| "Index (x # xs) c = (if x = c then Some 0 else map_option Suc (Index xs c))"

text \<open>
  \<open>strings.SplitAfterN(s, sep, n)\<close> is \<open>genSplit(s, sep, len(sep), n)\<close>; the code passes the
  one-byte separator \<open>"\n"\<close>. The loop of \<open>genSplit\<close> cuts at most \<open>n - 1\<close> pieces, each
  ending with its separator, and the rest of the string is the last piece.
\<close>

fun genSplit_loop :: "nat \<Rightarrow> string \<Rightarrow> char \<Rightarrow> string list" where
  "genSplit_loop 0 s c = [s]"
| "genSplit_loop (Suc i) s c =
     (case Index s c of
        None \<Rightarrow> [s]
      | Some m \<Rightarrow> take (m + 1) s # genSplit_loop i (drop (m + 1) s) c)"

definition SplitAfterN :: "string \<Rightarrow> char \<Rightarrow> int \<Rightarrow> string list" where
  "SplitAfterN s c n =
     (if n = 0 then []
      else let n1 = (if n < 0 then int (Count s c) + 1 else n);
               n2 = (if n1 > int (length s) + 1 then int (length s) + 1 else n1)
           in genSplit_loop (nat (n2 - 1)) s c)"

subsection \<open>One poll of \<open>tailLog\<close>\<close>

text \<open>
  The first read (\<open>offset == 0\<close>): keep the chunk from piece \<open>lineCount - tailLine\<close> of
  \<open>SplitAfterN\<close> on. \<open>None\<close> is the index-out-of-range panic. The subtraction and the
  \<open>+ 1\<close> are Go \<open>int\<close> arithmetic and wrap.
\<close>

definition firstRead :: "64 word \<Rightarrow> string \<Rightarrow> string option" where
  "firstRead tailLine data =
     (let lineCount = (of_nat (Count data nl) :: 64 word) in
      if sint tailLine < sint lineCount then
        let k = lineCount - tailLine;
            parts = SplitAfterN data nl (sint (k + 1))
        in if 0 \<le> sint k \<and> nat (sint k) < length parts
           then Some (parts ! nat (sint k)) else None
      else Some data)"

text \<open>
  A later read: \<open>newOffset - offset\<close> in \<open>int64\<close>; when it is positive the chunk is cut
  at \<open>dataOffset = len(data) - int(newOffset - offset)\<close>, and \<open>data[dataOffset:]\<close> panics
  for a negative \<open>dataOffset\<close>. When it is not positive neither \<open>offset\<close> nor \<open>data\<close>
  changes.
\<close>

definition laterRead :: "64 word \<Rightarrow> 64 word \<Rightarrow> string \<Rightarrow> (64 word \<times> string) option" where
  "laterRead offset newOffset data =
     (if 0 < sint (newOffset - offset) then
        let dataOffset = int (length data) - sint (newOffset - offset)
        in if dataOffset < 0 then None
           else Some (newOffset, drop (nat dataOffset) data)
      else Some (offset, data))"

text \<open>\<open>ret[1].(int64)\<close>: panics when the slice is too short or the element is no \<open>int64\<close>.\<close>

fun ret1_int64 :: "any list \<Rightarrow> 64 word option" where
  "ret1_int64 (r0 # AInt64 v # rs) = Some v"
| "ret1_int64 rs = None"

text \<open>
  What one successful RPC does to the loop: a panic, \<open>continue\<close> (the chunk is no string),
  or the new offset together with the data that reaches \<open>if len(data) > 0\<close>.
\<close>

datatype poll = Panic | Skip | Data "64 word" string

fun reconcile :: "64 word \<Rightarrow> 64 word \<Rightarrow> any list \<Rightarrow> poll" where
  "reconcile tailLine offset [] = Panic"
| "reconcile tailLine offset (AString data # rs) =
     (case ret1_int64 (AString data # rs) of
        None \<Rightarrow> Panic
      | Some newOffset \<Rightarrow>
          if offset = 0 then
            (case firstRead tailLine data of
               None \<Rightarrow> Panic
             | Some d \<Rightarrow> Data newOffset d)
          else
            (case laterRead offset newOffset data of
               None \<Rightarrow> Panic
             | Some (offset', d) \<Rightarrow> Data offset' d))"
| "reconcile tailLine offset (r0 # rs) = Skip"

subsection \<open>The poll loop of \<open>tailLog\<close>\<close>

text \<open>
  Each turn of the \<open>select\<close> is an event: the context is done (with what \<open>ctx.Err()\<close>
  returns), or the ticker fired and the RPC failed or filled \<open>ret\<close>. The process name,
  the method and \<open>readBufSize\<close> only go into the arguments of the RPC, whose outcome the
  event carries.
\<close>

datatype ctx_err = CtxCanceled | CtxDeadlineExceeded

fun ctx_Err :: "ctx_err \<Rightarrow> go_error" where
  "ctx_Err CtxCanceled = Canceled"
| "ctx_Err CtxDeadlineExceeded = DeadlineExceeded"

datatype event = Done ctx_err | Tick "go_error + any list"

text \<open>The deferred function: the error the pipe is closed with.\<close>

definition closeError :: "go_error option \<Rightarrow> ctx_err option \<Rightarrow> go_error" where
  "closeError err ctx =
     (case err of
        Some e \<Rightarrow> e
      | None \<Rightarrow> (case ctx of Some c \<Rightarrow> ctx_Err c | None \<Rightarrow> Other ''tail log quit''))"

text \<open>
  The loop ends with the pipe closed by \<open>w.CloseWithError\<close>, or by a panic of the
  goroutine; \<open>Polling\<close> is the loop waiting for its next event when the events given are
  used up. The string list holds the writes made to the pipe, in order. The read side of
  the pipe is never closed, so \<open>w.Write\<close> returns no error.
\<close>

datatype pump =
    Polling "64 word" (writes: "string list")
  | Closed go_error (writes: "string list")
  | Panicked (writes: "string list")

fun tailLog :: "64 word \<Rightarrow> 64 word \<Rightarrow> string list \<Rightarrow> event list \<Rightarrow> pump" where
  "tailLog tailLine offset ws [] = Polling offset ws"
| "tailLog tailLine offset ws (Done c # evs) = Closed (closeError None (Some c)) ws"
| "tailLog tailLine offset ws (Tick (Inl e) # evs) = Closed (closeError (Some e) None) ws"
| "tailLog tailLine offset ws (Tick (Inr ret) # evs) =
     (case reconcile tailLine offset ret of
        Panic \<Rightarrow> Panicked ws
      | Skip \<Rightarrow> tailLog tailLine offset ws evs
      | Data offset' d \<Rightarrow>
          tailLog tailLine offset' (if length d > 0 then ws @ [d] else ws) evs)"

subsection \<open>The line reader of \<open>logChan\<close>\<close>

text \<open>
  \<open>br.ReadString('\n')\<close> on the read side of the pipe. The reader's state is the bytes
  written and not yet returned, and how the pipe was closed (\<open>None\<close>: still open). A
  complete line is returned with a nil error; without one the call blocks while the pipe
  is open, and on a closed pipe it returns the bytes left together with the error.
\<close>

datatype read = Line string | Fail string go_error | Block

definition ReadString :: "string \<Rightarrow> go_error option \<Rightarrow> read \<times> string" where
  "ReadString buf closed =
     (case Index buf nl of
        Some m \<Rightarrow> (Line (take (m + 1) buf), drop (m + 1) buf)
      | None \<Rightarrow> (case closed of None \<Rightarrow> (Block, buf) | Some e \<Rightarrow> (Fail buf e, [])))"

text \<open>
  The loop of \<open>logChan\<close>, with the entries sent on the channel so far. \<open>ChanClosed\<close> is
  the return (the deferred \<open>close(ch)\<close>), \<open>ChanOpen\<close> the loop blocked in a read of the
  open pipe. On \<open>io.EOF\<close> the loop sleeps and reads again, so it may never return: the
  result is \<open>None\<close> then. The receiver of the channel is taken to receive every entry
  sent.
\<close>

datatype chan = ChanOpen "string list" | ChanClosed "string list"

partial_function (option) logChan_loop :: "string \<Rightarrow> go_error option \<Rightarrow> string list \<Rightarrow> chan option" where
  "logChan_loop buf closed ch =
     (case ReadString buf closed of
        (Block, buf') \<Rightarrow> Some (ChanOpen ch)
      | (Fail line err, buf') \<Rightarrow>
          if err = EOF then logChan_loop buf' closed ch
          else Some (ChanClosed (ch @ [Error err]))
      | (Line line, buf') \<Rightarrow> logChan_loop buf' closed (ch @ [line]))"

text \<open>
  \<open>logChan\<close>: the line reader run on what \<open>tailLog\<close> wrote. A panic of the poll
  goroutine has no \<open>recover\<close> and ends the process.
\<close>

datatype session = Crashed | Chan chan

definition logChan :: "64 word \<Rightarrow> event list \<Rightarrow> session option" where
  "logChan tailLine evs =
     (case tailLog tailLine 0 [] evs of
        Panicked ws \<Rightarrow> Some Crashed
      | Polling offset ws \<Rightarrow> map_option Chan (logChan_loop (concat ws) None [])
      | Closed err ws \<Rightarrow> map_option Chan (logChan_loop (concat ws) (Some err) []))"

declare logChan_loop.simps [code]

subsection \<open>Reference notions, in the words of the specification\<close>

text \<open>The content of a string after its \<open>k\<close>-th newline.\<close>

fun dropLines :: "nat \<Rightarrow> string \<Rightarrow> string" where
  "dropLines 0 s = s"
| "dropLines (Suc k) s = dropLines k (tl (dropWhile (\<lambda>x. x \<noteq> nl) s))"

text \<open>
  The seed trim: with more than \<open>K\<close> newlines in the chunk, the content after newline
  number \<open>count - K\<close>; otherwise the whole chunk.
\<close>

definition seedTrim :: "nat \<Rightarrow> string \<Rightarrow> string" where
  "seedTrim K s = (if K < Count s nl then dropLines (Count s nl - K) s else s)"

text \<open>A chunk made of newline-terminated lines, and the naive "keep the last \<open>K\<close> lines".\<close>

definition unlines :: "string list \<Rightarrow> string" where
  "unlines ls = concat (map (\<lambda>l. l @ [nl]) ls)"

definition keepLast :: "nat \<Rightarrow> string list \<Rightarrow> string" where
  "keepLast K ls = unlines (drop (length ls - K) ls)"

text \<open>
  The complete (newline-terminated) lines of a byte stream, and the unterminated rest
  after its last newline; \<open>cur\<close> is the line read so far.
\<close>

fun splitLines :: "string \<Rightarrow> string \<Rightarrow> string list" where
  "splitLines cur [] = []"
| "splitLines cur (x # xs) =
     (if x = nl then (cur @ [x]) # splitLines [] xs else splitLines (cur @ [x]) xs)"

fun lastPartial :: "string \<Rightarrow> string \<Rightarrow> string" where
  "lastPartial cur [] = cur"
| "lastPartial cur (x # xs) = (if x = nl then lastPartial [] xs else lastPartial (cur @ [x]) xs)"

text \<open>
  A successful poll answering with the chunk \<open>c\<close> and the end offset \<open>e\<close>; \<open>more\<close> holds
  what the reply carries after these two (the overflow flag of supervisord).
\<close>

definition snapshot :: "any list \<Rightarrow> string \<times> nat \<Rightarrow> event" where
  "snapshot more p = Tick (Inr (AString (fst p) # AInt64 (of_nat (snd p)) # more))"

text \<open>
  Snapshots of an append-only log \<open>log\<close>, taken after the offset \<open>off\<close>: each chunk is a
  suffix of the log as it was when it had \<open>e\<close> bytes, and the end offsets do not decrease.
\<close>

fun suffix_snapshots :: "string \<Rightarrow> nat \<Rightarrow> (string \<times> nat) list \<Rightarrow> bool" where
  "suffix_snapshots log off [] = True"
| "suffix_snapshots log off ((c, e) # ps) =
     (off \<le> e \<and> e \<le> length log \<and> suffix c (take e log) \<and> suffix_snapshots log e ps)"

text \<open>
  The same, where moreover each chunk is at least as long as the advance \<open>e - off\<close>, and a
  poll that finds no new bytes returns the empty chunk.
\<close>

fun covering_snapshots :: "string \<Rightarrow> nat \<Rightarrow> (string \<times> nat) list \<Rightarrow> bool" where
  "covering_snapshots log off [] = True"
| "covering_snapshots log off ((c, e) # ps) =
     (off \<le> e \<and> e \<le> length log \<and> suffix c (take e log) \<and> e - off \<le> length c \<and>
      (e = off \<longrightarrow> c = []) \<and> covering_snapshots log e ps)"

text \<open>The end offset of the last snapshot.\<close>

fun endOffset :: "nat \<Rightarrow> (string \<times> nat) list \<Rightarrow> nat" where
  "endOffset off [] = off"
| "endOffset off ((c, e) # ps) = endOffset e ps"

section \<open>Properties\<close>

subsection \<open>Strings\<close>

lemma Index_None: "Index s c = None \<longleftrightarrow> c \<notin> set s"
  by (induction s) auto

lemma Index_Some_drop: "Index s c = Some m \<Longrightarrow> drop (Suc m) s = tl (dropWhile (\<lambda>x. x \<noteq> c) s)"
  by (induction s arbitrary: m) (auto split: if_splits)

lemma Index_Some_take: "Index s c = Some m \<Longrightarrow> take (Suc m) s = takeWhile (\<lambda>x. x \<noteq> c) s @ [c]"
  by (induction s arbitrary: m) (auto split: if_splits)

lemma Index_Some_less: "Index s c = Some m \<Longrightarrow> m < length s"
  by (induction s arbitrary: m) (auto split: if_splits)

lemma Count_Index_None: "Index s c = None \<Longrightarrow> Count s c = 0"
  by (auto simp: Index_None Count_def filter_empty_conv)

lemma Count_Index_Some: "Index s c = Some m \<Longrightarrow> Count s c = Suc (Count (drop (Suc m) s) c)"
  by (induction s arbitrary: m) (auto simp: Count_def split: if_splits)

lemma Count_le_length: "Count s c \<le> length s"
  by (simp add: Count_def)

lemma genSplit_loop_nth:
  "i \<le> Count s nl \<Longrightarrow> length (genSplit_loop i s nl) = Suc i \<and> genSplit_loop i s nl ! i = dropLines i s"
proof (induction i arbitrary: s)
  case 0
  then show ?case by simp
next
  case (Suc i)
  then obtain m where m: "Index s nl = Some m"
    by (cases "Index s nl") (auto simp: Count_Index_None)
  with Suc.prems have "i \<le> Count (drop (Suc m) s) nl"
    by (simp add: Count_Index_Some)
  from Suc.IH [OF this] m show ?case
    by (simp add: Index_Some_drop)
qed

lemma sint_of_nat_64:
  assumes "n < 2 ^ 63"
  shows "sint (of_nat n :: 64 word) = int n"
proof -
  from assms have "int n < 2 ^ 63" by simp
  then have "signed_take_bit 63 (int n) = int n"
    by (intro signed_take_bit_int_eq_self) auto
  then show ?thesis by (simp add: signed_of_nat)
qed

lemma sint_diff_of_nat_64:
  assumes "a < 2 ^ 63" "b < 2 ^ 63"
  shows "sint (of_nat b - of_nat a :: 64 word) = int b - int a"
proof -
  from assms have "int a < 2 ^ 63" "int b < 2 ^ 63" by simp_all
  then have "signed_take_bit 63 (int b - int a) = int b - int a"
    by (intro signed_take_bit_int_eq_self) auto
  with assms show ?thesis by (simp add: sint_word_diff sint_of_nat_64)
qed

lemma sint_sub_nonneg_64:
  assumes "0 \<le> sint (t :: 64 word)" "n < 2 ^ 63"
  shows "sint (of_nat n - t) = int n - sint t"
proof -
  have "sint t < 2 ^ 63" using sint_lt [of t] by simp
  with assms have "signed_take_bit 63 (int n - sint t) = int n - sint t"
    by (intro signed_take_bit_int_eq_self) auto
  with assms show ?thesis by (simp add: sint_word_diff sint_of_nat_64)
qed

lemma SplitAfterN_index:
  assumes k: "k \<le> Count data nl" and len: "length data < 2 ^ 63"
  shows "length (SplitAfterN data nl (sint (of_nat k + 1 :: 64 word))) = Suc k
       \<and> SplitAfterN data nl (sint (of_nat k + 1 :: 64 word)) ! k = dropLines k data"
proof -
  let ?n = "sint (of_nat k + 1 :: 64 word)"
  have c: "Count data nl \<le> length data" by (rule Count_le_length)
  have split: "SplitAfterN data nl ?n = genSplit_loop k data nl"
  proof (cases "Suc k < 2 ^ 63")
    case True
    have "(of_nat k + 1 :: 64 word) = of_nat (Suc k)" by simp
    then have "?n = int (Suc k)" using sint_of_nat_64 [OF True] by metis
    with k c show ?thesis by (simp add: SplitAfterN_def)
  next
    case False
    with k c len have keq: "k = 2 ^ 63 - 1" and ceq: "Count data nl = k" and leq: "length data = k"
      by simp_all
    have "(of_nat k + 1 :: 64 word) = 2 ^ 63" unfolding keq by simp
    then have "?n = - (2 ^ 63)" by simp
    then have "?n < 0" "?n \<noteq> 0" by simp_all
    with ceq leq show ?thesis by (simp add: SplitAfterN_def)
  qed
  show ?thesis unfolding split using genSplit_loop_nth [OF k] by simp
qed

lemma firstRead_seedTrim:
  assumes len: "length data < 2 ^ 63" and K: "0 \<le> sint tailLine"
  shows "firstRead tailLine data = Some (seedTrim (nat (sint tailLine)) data)"
proof -
  let ?c = "Count data nl"
  have c: "?c < 2 ^ 63" using Count_le_length [of data nl] len by simp
  show ?thesis
  proof (cases "sint tailLine < int ?c")
    case False
    with K c show ?thesis
      by (auto simp: firstRead_def seedTrim_def sint_of_nat_64 Let_def)
  next
    case True
    define k where "k = ?c - nat (sint tailLine)"
    from True K have k: "int k = int ?c - sint tailLine" "k \<le> ?c"
      by (simp_all add: k_def)
    have sk: "sint (of_nat ?c - tailLine) = int k"
      using sint_sub_nonneg_64 [OF K c] k by simp
    have "k < 2 ^ 63" using k(2) c by simp
    with sk have "sint (of_nat ?c - tailLine) = sint (of_nat k :: 64 word)"
      by (simp add: sint_of_nat_64)
    then have kw: "of_nat ?c - tailLine = (of_nat k :: 64 word)"
      by (rule signed_word_eqI)
    from True K have lt: "nat (sint tailLine) < ?c" by simp
    have st: "seedTrim (nat (sint tailLine)) data = dropLines k data"
      using lt by (simp add: seedTrim_def k_def)
    have cond: "sint tailLine < sint (of_nat ?c :: 64 word)"
      using True c by (simp add: sint_of_nat_64)
    from SplitAfterN_index [OF k(2) len] cond show ?thesis
      by (simp add: firstRead_def Let_def kw sk [unfolded kw] st)
  qed
qed


text \<open>A negative \<open>tailLine\<close> asks for a piece that \<open>SplitAfterN\<close> never returns.\<close>

lemma firstRead_negative_tailLine: "firstRead (- 1) ''a\<newline>'' = None"
  by (simp add: firstRead_def Count_def nl_def SplitAfterN_def Let_def eval_nat_numeral)

lemma Count_append: "Count (xs @ ys) c = Count xs c + Count ys c"
  by (simp add: Count_def)

lemma Count_unlines:
  "\<forall>l\<in>set ls. nl \<notin> set l \<Longrightarrow> Count (unlines ls) nl = length ls"
  by (induction ls) (auto simp: unlines_def Count_def filter_empty_conv)

lemma dropWhile_line:
  "nl \<notin> set l \<Longrightarrow> dropWhile (\<lambda>x. x \<noteq> nl) (l @ nl # rest) = nl # rest"
  by (induction l) auto

lemma dropLines_unlines:
  "\<forall>l\<in>set ls. nl \<notin> set l \<Longrightarrow> k \<le> length ls \<Longrightarrow> dropLines k (unlines ls) = unlines (drop k ls)"
proof (induction k arbitrary: ls)
  case 0
  then show ?case by simp
next
  case (Suc k)
  then obtain l ls' where ls: "ls = l # ls'" by (cases ls) auto
  with Suc.prems have "nl \<notin> set l" "\<forall>l\<in>set ls'. nl \<notin> set l" "k \<le> length ls'" by auto
  with Suc.IH [of ls'] ls show ?case
    by (simp add: unlines_def dropWhile_line)
qed

lemma seedTrim_unlines:
  assumes "\<forall>l\<in>set ls. nl \<notin> set l"
  shows "seedTrim K (unlines ls) = keepLast K ls"
  using assms by (simp add: seedTrim_def keepLast_def Count_unlines dropLines_unlines)

lemma laterRead_advance:
  assumes "0 < sint (newOffset - offset)" "sint (newOffset - offset) \<le> int (length data)"
  shows "laterRead offset newOffset data =
           Some (newOffset, drop (length data - nat (sint (newOffset - offset))) data)"
  using assms by (simp add: laterRead_def Let_def nat_diff_distrib')

lemma suffix_drop_take:
  assumes "suffix c (take e log)" "e \<le> length log" "off \<le> e" "e - off \<le> length c"
  shows "drop (length c - (e - off)) c = drop off (take e log)"
proof -
  from assms(1) obtain p where p: "take e log = p @ c" by (auto simp: suffix_def)
  then have "length p + length c = e" using assms(2)
    by (metis length_append length_take min.absorb2)
  with assms have "off = length p + (length c - (e - off))" by simp
  then have "drop off (p @ c) = drop (length c - (e - off)) c"
    by (metis drop_append drop_all append_Nil diff_add_inverse le_add1)
  then show ?thesis unfolding p by simp
qed

lemma laterRead_no_advance:
  "\<not> 0 < sint (newOffset - offset) \<Longrightarrow> laterRead offset newOffset data = Some (offset, data)"
  by (simp add: laterRead_def)

subsection \<open>The line reader\<close>

lemma splitLines_Index_None: "Index s nl = None \<Longrightarrow> splitLines cur s = []"
  by (induction s arbitrary: cur) (auto split: if_splits)

lemma splitLines_Index_Some:
  "Index s nl = Some m \<Longrightarrow> splitLines cur s = (cur @ take (Suc m) s) # splitLines [] (drop (Suc m) s)"
  by (induction s arbitrary: cur m) (auto split: if_splits)

lemma splitLines_lastPartial: "concat (splitLines cur s) @ lastPartial cur s = cur @ s"
  by (induction s arbitrary: cur) auto

lemma lastPartial_no_nl: "nl \<notin> set cur \<Longrightarrow> nl \<notin> set (lastPartial cur s)"
  by (induction s arbitrary: cur) auto

lemma splitLines_terminated:
  "nl \<notin> set cur \<Longrightarrow> l \<in> set (splitLines cur s) \<Longrightarrow> \<exists>b. l = b @ [nl] \<and> nl \<notin> set b"
proof (induction s arbitrary: cur)
  case Nil
  then show ?case by simp
next
  case (Cons x xs)
  show ?case
  proof (cases "x = nl")
    case True
    with Cons.prems have "l = cur @ [nl] \<or> l \<in> set (splitLines [] xs)" by simp
    then show ?thesis
    proof
      assume "l = cur @ [nl]"
      with Cons.prems(1) show ?thesis by blast
    next
      assume "l \<in> set (splitLines [] xs)"
      then show ?thesis using Cons.IH [of "[]"] by simp
    qed
  next
    case False
    with Cons.prems have "nl \<notin> set (cur @ [x])" "l \<in> set (splitLines (cur @ [x]) xs)" by auto
    then show ?thesis by (rule Cons.IH)
  qed
qed

lemma logChan_loop_open: "logChan_loop buf None ch = Some (ChanOpen (ch @ splitLines [] buf))"
proof (induction buf arbitrary: ch rule: length_induct)
  case (1 buf)
  show ?case
  proof (cases "Index buf nl")
    case None
    then show ?thesis
      by (subst logChan_loop.simps) (simp add: ReadString_def splitLines_Index_None)
  next
    case (Some m)
    then have "length (drop (Suc m) buf) < length buf"
      using Index_Some_less [OF Some] by simp
    with 1 have "logChan_loop (drop (Suc m) buf) None (ch @ [take (Suc m) buf])
        = Some (ChanOpen ((ch @ [take (Suc m) buf]) @ splitLines [] (drop (Suc m) buf)))"
      by blast
    with Some show ?thesis
      by (subst logChan_loop.simps) (simp add: ReadString_def splitLines_Index_Some)
  qed
qed

lemma logChan_loop_closed:
  assumes "e \<noteq> EOF"
  shows "logChan_loop buf (Some e) ch = Some (ChanClosed (ch @ splitLines [] buf @ [Error e]))"
proof (induction buf arbitrary: ch rule: length_induct)
  case (1 buf)
  show ?case
  proof (cases "Index buf nl")
    case None
    with assms show ?thesis
      by (subst logChan_loop.simps) (simp add: ReadString_def splitLines_Index_None)
  next
    case (Some m)
    then have "length (drop (Suc m) buf) < length buf"
      using Index_Some_less [OF Some] by simp
    with 1 have "logChan_loop (drop (Suc m) buf) (Some e) (ch @ [take (Suc m) buf])
        = Some (ChanClosed ((ch @ [take (Suc m) buf]) @ splitLines [] (drop (Suc m) buf) @ [Error e]))"
      by blast
    with Some show ?thesis
      by (subst logChan_loop.simps) (simp add: ReadString_def splitLines_Index_Some)
  qed
qed


lemma logChan_loop_EOF_aux:
  assumes "logChan_loop buf closed ch = Some r"
  shows "closed \<noteq> Some EOF"
  by (rule logChan_loop.raw_induct [where P = "\<lambda>b c h r. c \<noteq> Some EOF", OF _ assms])
     (auto simp: ReadString_def split: option.splits read.splits prod.splits if_splits)

lemma logChan_loop_EOF: "logChan_loop buf (Some EOF) ch = None"
  using logChan_loop_EOF_aux [of buf "Some EOF" ch] by (cases "logChan_loop buf (Some EOF) ch") auto

subsection \<open>The poll loop\<close>

lemma reconcile_first:
  assumes "length data < 2 ^ 63" "0 \<le> sint tailLine"
  shows "reconcile tailLine 0 (AString data # AInt64 e # more) = Data e (seedTrim (nat (sint tailLine)) data)"
  using firstRead_seedTrim [OF assms] by simp

lemma reconcile_later:
  assumes "offset \<noteq> 0" "sint (newOffset - offset) \<le> int (length data)"
  shows "reconcile tailLine offset (AString data # AInt64 newOffset # more) =
     (if 0 < sint (newOffset - offset)
      then Data newOffset (drop (length data - nat (sint (newOffset - offset))) data)
      else Data offset data)"
  using assms by (simp add: laterRead_advance laterRead_no_advance)

lemma tailLog_append:
  "tailLog tailLine offset ws evs = Polling offset' ws' \<Longrightarrow>
   tailLog tailLine offset ws (evs @ evs') = tailLog tailLine offset' ws' evs'"
proof (induction tailLine offset ws evs rule: tailLog.induct)
  case (4 tailLine offset ws ret evs)
  then show ?case by (cases "reconcile tailLine offset ret") auto
qed auto

lemma of_nat_64_nonzero: "0 < n \<Longrightarrow> n < 2 ^ 63 \<Longrightarrow> (of_nat n :: 64 word) \<noteq> 0"
  using sint_of_nat_64 [of n] by (metis of_nat_0_less_iff less_irrefl sint_0)

lemma endOffset_bounds:
  "covering_snapshots log off ps \<Longrightarrow> off \<le> length log \<Longrightarrow>
   off \<le> endOffset off ps \<and> endOffset off ps \<le> length log"
  by (induction log off ps rule: covering_snapshots.induct) auto

lemma drop_take_chain:
  "a \<le> b \<Longrightarrow> b \<le> c \<Longrightarrow> drop a (take b xs) @ drop b (take c xs) = drop a (take c xs)"
proof -
  assume ab: "a \<le> b" and bc: "b \<le> c"
  have "take c xs = take b xs @ drop b (take c xs)"
    using bc by (metis append_take_drop_id take_take min.absorb1)
  then have "drop a (take c xs) = drop a (take b xs) @ drop (a - length (take b xs)) (drop b (take c xs))"
    by (metis drop_append)
  moreover have "drop (a - length (take b xs)) (drop b (take c xs)) = drop b (take c xs)"
  proof (cases "b \<le> length xs")
    case True
    with ab show ?thesis by simp
  next
    case False
    then show ?thesis by simp
  qed
  ultimately show ?thesis by simp
qed

lemma tailLog_covering:
  assumes len: "length log < 2 ^ 63"
  shows "0 < off \<Longrightarrow> off \<le> length log \<Longrightarrow> covering_snapshots log off ps \<Longrightarrow>
     \<exists>ws'. tailLog tailLine (of_nat off) ws (map (snapshot more) ps @ evs)
             = tailLog tailLine (of_nat (endOffset off ps)) ws' evs
         \<and> concat ws' = concat ws @ drop off (take (endOffset off ps) log)"
proof (induction ps arbitrary: off ws)
  case Nil
  show ?case by (intro exI [of _ ws]) simp
next
  case (Cons p ps)
  obtain c e where p: "p = (c, e)" by (cases p)
  from Cons.prems p have cov: "off \<le> e" "e \<le> length log" "suffix c (take e log)"
    "e - off \<le> length c" "e = off \<longrightarrow> c = []" "covering_snapshots log e ps"
    by simp_all
  have e: "0 < e" "e < 2 ^ 63" and off: "off < 2 ^ 63"
    using Cons.prems(1,2) cov(1,2) len by simp_all
  have adv: "sint (of_nat e - of_nat off :: 64 word) = int e - int off"
    by (rule sint_diff_of_nat_64 [OF off e(2)])
  have nz: "(of_nat off :: 64 word) \<noteq> 0"
    by (rule of_nat_64_nonzero [OF Cons.prems(1) off])
  define d where "d = drop off (take e log)"
  have rec: "reconcile tailLine (of_nat off) (AString c # AInt64 (of_nat e) # more) = Data (of_nat e) d"
  proof (cases "off < e")
    case True
    have "nat (int e - int off) = e - off" by simp
    with True cov show ?thesis
      using reconcile_later [OF nz, of "of_nat e" c tailLine more] suffix_drop_take [OF cov(3,2,1,4)]
      by (simp add: adv d_def)
  next
    case False
    with cov have "e = off" "c = []" by simp_all
    then show ?thesis
      using reconcile_later [OF nz, of "of_nat e" c tailLine more] by (simp add: d_def)
  qed
  define ws1 where "ws1 = (if length d > 0 then ws @ [d] else ws)"
  have c1: "concat ws1 = concat ws @ d" by (simp add: ws1_def)
  from Cons.IH [OF e(1) cov(2) cov(6), of ws1] obtain ws' where
    ws': "tailLog tailLine (of_nat e) ws1 (map (snapshot more) ps @ evs)
             = tailLog tailLine (of_nat (endOffset e ps)) ws' evs"
      "concat ws' = concat ws1 @ drop e (take (endOffset e ps) log)"
    by blast
  have "e \<le> endOffset e ps" using endOffset_bounds [OF cov(6) cov(2)] by simp
  then have "d @ drop e (take (endOffset e ps) log) = drop off (take (endOffset e ps) log)"
    unfolding d_def by (rule drop_take_chain [OF cov(1)])
  with ws'(2) c1 have cat: "concat ws' = concat ws @ drop off (take (endOffset off (p # ps)) log)"
    by (simp add: p)
  have "snapshot more p = Tick (Inr (AString c # AInt64 (of_nat e) # more))"
    by (simp add: snapshot_def p)
  then have step: "tailLog tailLine (of_nat off) ws (map (snapshot more) (p # ps) @ evs)
      = tailLog tailLine (of_nat e) ws1 (map (snapshot more) ps @ evs)"
    by (simp add: rec ws1_def del: reconcile.simps)
  show ?case unfolding step ws'(1) using cat p by (intro exI [of _ ws']) simp
qed

section \<open>The claims\<close>

text \<open>
  C1. No duplication, as the code has it. Take an append-only log shorter than \<open>2 ^ 63\<close>
  bytes, a first poll that finds it non-empty, and later polls whose chunk is a suffix of
  the log at its end offset, at least as long as the advance, and empty when the end
  offset did not move. Then the writes to the pipe, concatenated, are the seed trim of the
  first chunk followed by the bytes of the log from the first end offset to the last one:
  no byte twice and none missing.
\<close>

theorem tailLog_reproduces_log:
  assumes len: "length log < 2 ^ 63" and K: "0 \<le> sint tailLine"
    and first: "0 < e1" "e1 \<le> length log" "suffix c1 (take e1 log)"
    and rest: "covering_snapshots log e1 ps"
  shows "\<exists>ws. tailLog tailLine 0 [] (map (snapshot more) ((c1, e1) # ps))
               = Polling (of_nat (endOffset e1 ps)) ws
            \<and> concat ws = seedTrim (nat (sint tailLine)) c1 @ drop e1 (take (endOffset e1 ps) log)"
proof -
  have "length c1 \<le> length (take e1 log)" using first(3) by (rule suffix_length_le)
  with len have c1: "length c1 < 2 ^ 63" by simp
  define d where "d = seedTrim (nat (sint tailLine)) c1"
  define ws1 where "ws1 = (if length d > 0 then [d] else [])"
  have rec: "reconcile tailLine 0 (AString c1 # AInt64 (of_nat e1) # more) = Data (of_nat e1) d"
    unfolding d_def by (rule reconcile_first [OF c1 K])
  have step: "tailLog tailLine 0 [] (map (snapshot more) ((c1, e1) # ps))
      = tailLog tailLine (of_nat e1) ws1 (map (snapshot more) ps @ [])"
    by (simp add: snapshot_def rec ws1_def del: reconcile.simps)
  from tailLog_covering [OF len first(1,2) rest, of tailLine ws1 more "[]"]
  obtain ws where ws: "tailLog tailLine (of_nat e1) ws1 (map (snapshot more) ps @ [])
        = tailLog tailLine (of_nat (endOffset e1 ps)) ws []"
      "concat ws = concat ws1 @ drop e1 (take (endOffset e1 ps) log)"
    by blast
  have "concat ws1 = d" by (simp add: ws1_def)
  with ws show ?thesis unfolding step d_def by (intro exI [of _ ws]) simp
qed

theorem tailLog_reproduces_log_witness:
  "length ''a\<newline>b\<newline>c\<newline>d\<newline>'' < 2 ^ 63 \<and> 0 \<le> sint (2 :: 64 word) \<and> (0::nat) < 6
   \<and> 6 \<le> length ''a\<newline>b\<newline>c\<newline>d\<newline>''
   \<and> suffix ''a\<newline>b\<newline>c\<newline>'' (take 6 ''a\<newline>b\<newline>c\<newline>d\<newline>'')
   \<and> covering_snapshots ''a\<newline>b\<newline>c\<newline>d\<newline>'' 6 [(''b\<newline>c\<newline>d\<newline>'', 8), ([], 8)]
   \<and> (\<exists>ws. tailLog 2 0 []
          (map (snapshot [ABool False])
             [(''a\<newline>b\<newline>c\<newline>'', 6), (''b\<newline>c\<newline>d\<newline>'', 8), ([], 8)]) = Polling 8 ws
        \<and> concat ws = ''b\<newline>c\<newline>d\<newline>'')"
  using tailLog_reproduces_log [of "''a\<newline>b\<newline>c\<newline>d\<newline>''" 2 6 "''a\<newline>b\<newline>c\<newline>''"
      "[(''b\<newline>c\<newline>d\<newline>'', 8), ([], 8)]" "[ABool False]"]
  by (simp add: suffix_to_prefix seedTrim_def Count_def nl_def)

text \<open>
  As the claim states it (each chunk a suffix of the log at its end offset) it fails: a
  poll that finds no new bytes and returns the same window again has that window written
  again.
\<close>

theorem tailLog_repeats_counterexample:
  "\<not> (suffix_snapshots ''a\<newline>'' 0 [(''a\<newline>'', 2), (''a\<newline>'', 2)] \<longrightarrow>
      concat (writes (tailLog 5 0 [] (map (snapshot []) [(''a\<newline>'', 2), (''a\<newline>'', 2)])))
        = seedTrim 5 ''a\<newline>'' @ drop 2 ''a\<newline>'')"
  by (simp add: suffix_to_prefix snapshot_def firstRead_def laterRead_def seedTrim_def Count_def nl_def)

text \<open>
  C2. A poll with a stored offset other than 0 whose \<open>newOffset - offset\<close> is not positive
  neither fails nor ends the loop; the stored offset stays, and the chunk goes on
  unchanged: it is written to the pipe when it is non-empty, and nothing is written when
  it is empty.
\<close>

theorem no_advance_passes_chunk:
  assumes "offset \<noteq> 0" and "sint (newOffset - offset) \<le> 0"
  shows "tailLog tailLine offset ws (Tick (Inr (AString data # AInt64 newOffset # more)) # evs)
       = tailLog tailLine offset (if data = [] then ws else ws @ [data]) evs"
  using assms by (simp add: laterRead_no_advance)

theorem no_advance_passes_chunk_witness:
  "(8 :: 64 word) \<noteq> 0 \<and> sint (5 - 8 :: 64 word) \<le> 0
   \<and> tailLog 2 8 [''d\<newline>''] [Tick (Inr [AString [], AInt64 5, ABool False]), Done CtxCanceled]
       = Closed Canceled [''d\<newline>'']"
  using no_advance_passes_chunk [of 8 5 2 "[''d\<newline>'']" "[]" "[ABool False]" "[Done CtxCanceled]"]
  by (simp add: closeError_def)

text \<open>
  The delta is not empty in general: with no advance and a non-empty chunk the chunk is
  written.
\<close>

theorem no_advance_counterexample:
  "\<not> ((8 :: 64 word) \<noteq> 0 \<and> sint (8 - 8 :: 64 word) \<le> 0 \<longrightarrow>
       writes (tailLog 2 8 [] [Tick (Inr [AString ''b\<newline>c\<newline>d\<newline>'', AInt64 8, ABool False])]) = [])"
  by (simp add: laterRead_def)

text \<open>
  C3. On a poll with a stored offset other than 0 whose advance does not exceed the length
  of the chunk, the stored offset becomes the end offset of the reply exactly when
  \<open>newOffset - offset\<close> is positive, and the data is then the last \<open>newOffset - offset\<close>
  bytes of the chunk; otherwise the stored offset and the chunk stay as they are.
\<close>

theorem later_poll_offset:
  assumes "offset \<noteq> 0" and "sint (newOffset - offset) \<le> int (length data)"
  shows "reconcile tailLine offset (AString data # AInt64 newOffset # more) =
     (if 0 < sint (newOffset - offset)
      then Data newOffset (drop (length data - nat (sint (newOffset - offset))) data)
      else Data offset data)"
  using assms by (rule reconcile_later)

theorem later_poll_offset_witness:
  "(6 :: 64 word) \<noteq> 0 \<and> sint (8 - 6 :: 64 word) \<le> int (length ''b\<newline>c\<newline>d\<newline>'')
   \<and> reconcile 2 6 [AString ''b\<newline>c\<newline>d\<newline>'', AInt64 8] = Data 8 ''d\<newline>''"
  using later_poll_offset [of 6 8 "''b\<newline>c\<newline>d\<newline>''" 2 "[]"]
  by simp

text \<open>
  The example of the specification: after the offsets 6 and 8, a reply with the end offset
  5 leaves the stored offset at 8.
\<close>

theorem later_poll_offset_counterexample:
  "tailLog 2 0 [] [Tick (Inr [AString ''a\<newline>b\<newline>c\<newline>'', AInt64 6, ABool False]),
                   Tick (Inr [AString ''b\<newline>c\<newline>d\<newline>'', AInt64 8, ABool False]),
                   Tick (Inr [AString [], AInt64 5, ABool False])]
     = Polling 8 [''b\<newline>c\<newline>'', ''d\<newline>'']
   \<and> (8 :: 64 word) \<noteq> 5"
  by (simp add: firstRead_def laterRead_def Count_def nl_def SplitAfterN_def)

text \<open>
  C4. On the first poll (the stored offset is 0) the data handed on is the chunk after its
  newline number \<open>count - tailLine\<close> when the chunk has more than \<open>tailLine\<close>
  newlines, and the whole chunk otherwise; for a chunk of newline-terminated lines this is
  the naive "keep the last \<open>tailLine\<close> lines". \<open>tailLine\<close> is a number of lines, so not
  negative.
\<close>

theorem first_poll_seed_trim:
  assumes "length data < 2 ^ 63" and "0 \<le> sint tailLine"
  shows "reconcile tailLine 0 (AString data # AInt64 e # more) =
           Data e (if nat (sint tailLine) < Count data nl
                   then dropLines (Count data nl - nat (sint tailLine)) data else data)
       \<and> (data = unlines ls \<and> (\<forall>l\<in>set ls. nl \<notin> set l) \<longrightarrow>
            reconcile tailLine 0 (AString data # AInt64 e # more) =
              Data e (keepLast (nat (sint tailLine)) ls))"
proof -
  have r: "reconcile tailLine 0 (AString data # AInt64 e # more) =
      Data e (seedTrim (nat (sint tailLine)) data)"
    by (rule reconcile_first [OF assms])
  then have "reconcile tailLine 0 (AString data # AInt64 e # more) =
           Data e (if nat (sint tailLine) < Count data nl
                   then dropLines (Count data nl - nat (sint tailLine)) data else data)"
    by (simp only: seedTrim_def)
  moreover have "data = unlines ls \<and> (\<forall>l\<in>set ls. nl \<notin> set l) \<longrightarrow>
            reconcile tailLine 0 (AString data # AInt64 e # more) =
              Data e (keepLast (nat (sint tailLine)) ls)"
    using r seedTrim_unlines [of ls "nat (sint tailLine)"] by auto
  ultimately show ?thesis by blast
qed

theorem first_poll_seed_trim_witness:
  "length ''a\<newline>b\<newline>c\<newline>'' < 2 ^ 63 \<and> 0 \<le> sint (2 :: 64 word)
   \<and> ''a\<newline>b\<newline>c\<newline>'' = unlines [''a'', ''b'', ''c'']
   \<and> nl \<notin> set ''a'' \<and> nl \<notin> set ''b'' \<and> nl \<notin> set ''c''
   \<and> reconcile 2 0 [AString ''a\<newline>b\<newline>c\<newline>'', AInt64 6, ABool False] = Data 6 ''b\<newline>c\<newline>''
   \<and> keepLast 2 [''a'', ''b'', ''c''] = ''b\<newline>c\<newline>''"
  using first_poll_seed_trim [of "''a\<newline>b\<newline>c\<newline>''" 2 6 "[ABool False]" "[''a'', ''b'', ''c'']"]
  by (simp add: unlines_def keepLast_def nl_def Count_def)

text \<open>
  C5. An advance larger than the chunk: the log grew from 6 to 20 bytes and the reply
  holds its last 6 bytes. \<open>dataOffset\<close> is \<open>6 - 14\<close>, the slice expression panics, and the
  panic of the goroutine ends the process; no lossy delta is produced.
\<close>

theorem advance_beyond_chunk_panics:
  "logChan 2 [Tick (Inr [AString ''a\<newline>b\<newline>c\<newline>'', AInt64 6, ABool False]),
              Tick (Inr [AString ''uvwxy\<newline>'', AInt64 20, ABool True])] = Some Crashed"
  by (simp add: logChan_def firstRead_def laterRead_def Count_def nl_def SplitAfterN_def)

text \<open>
  C6. An empty chunk with a positive advance: \<open>dataOffset\<close> is \<open>0 - 2\<close>, the slice
  expression panics and the process ends; no error entry reaches the channel.
\<close>

theorem empty_chunk_advance_panics:
  "logChan 2 [Tick (Inr [AString ''a\<newline>b\<newline>c\<newline>'', AInt64 6, ABool False]),
              Tick (Inr [AString [], AInt64 8, ABool False])] = Some Crashed"
  by (simp add: logChan_def firstRead_def laterRead_def Count_def nl_def SplitAfterN_def)

text \<open>
  C7. When the poll loop closes the pipe with an error other than \<open>io.EOF\<close>, the channel
  receives the complete lines of what was written, then one entry with the description of
  the error, and is closed.
\<close>

theorem closed_with_error_final_entry:
  assumes "tailLog tailLine 0 [] evs = Closed e ws" and "e \<noteq> EOF"
  shows "logChan tailLine evs = Some (Chan (ChanClosed (splitLines [] (concat ws) @ [Error e])))"
  using assms by (simp add: logChan_def logChan_loop_closed)

theorem closed_with_error_final_entry_witness:
  "tailLog 2 0 [] [Tick (Inr [AString ''a\<newline>b\<newline>c\<newline>'', AInt64 6, ABool False]),
                   Tick (Inl (Other ''connection refused''))]
     = Closed (Other ''connection refused'') [''b\<newline>c\<newline>'']
   \<and> Other ''connection refused'' \<noteq> EOF
   \<and> logChan 2 [Tick (Inr [AString ''a\<newline>b\<newline>c\<newline>'', AInt64 6, ABool False]),
                 Tick (Inl (Other ''connection refused''))]
     = Some (Chan (ChanClosed [''b\<newline>'', ''c\<newline>'', ''connection refused'']))"
proof -
  have t: "tailLog 2 0 [] [Tick (Inr [AString ''a\<newline>b\<newline>c\<newline>'', AInt64 6, ABool False]),
                   Tick (Inl (Other ''connection refused''))]
     = Closed (Other ''connection refused'') [''b\<newline>c\<newline>'']"
    by (simp add: firstRead_def Count_def nl_def SplitAfterN_def closeError_def)
  have e: "Other ''connection refused'' \<noteq> EOF" by simp
  from closed_with_error_final_entry [OF t e] t show ?thesis by (simp add: nl_def)
qed

text \<open>
  A pipe closed with \<open>io.EOF\<close> (an RPC call failing with that very error) is read as
  "no data yet": the reader sleeps and reads again for ever, sends nothing and never closes
  the channel.
\<close>

theorem closed_with_EOF_counterexample:
  "tailLog 2 0 [] [Tick (Inl EOF)] = Closed EOF [] \<and> logChan 2 [Tick (Inl EOF)] = None"
  by (simp add: logChan_def closeError_def logChan_loop_EOF)

text \<open>
  C8. The entries sent before the pipe is closed are exactly the newline-terminated lines
  of the bytes written, however the writes cut them; each ends with its newline and holds
  no other. The unterminated rest after the last newline is not among them, and when the
  pipe is closed with an error (other than \<open>io.EOF\<close>) the only further entry is the
  description of that error.
\<close>

theorem lines_only_when_terminated:
  "logChan_loop data None [] = Some (ChanOpen (splitLines [] data))
   \<and> (e \<noteq> EOF \<longrightarrow>
        logChan_loop data (Some e) [] = Some (ChanClosed (splitLines [] data @ [Error e])))
   \<and> (\<forall>l\<in>set (splitLines [] data). \<exists>b. l = b @ [nl] \<and> nl \<notin> set b)
   \<and> concat (splitLines [] data) @ lastPartial [] data = data
   \<and> nl \<notin> set (lastPartial [] data)"
proof -
  have "logChan_loop data None [] = Some (ChanOpen (splitLines [] data))"
    using logChan_loop_open [of data "[]"] by simp
  moreover have "e \<noteq> EOF \<longrightarrow>
        logChan_loop data (Some e) [] = Some (ChanClosed (splitLines [] data @ [Error e]))"
    using logChan_loop_closed [of e data "[]"] by simp
  moreover have "\<forall>l\<in>set (splitLines [] data). \<exists>b. l = b @ [nl] \<and> nl \<notin> set b"
    using splitLines_terminated [of "[]" _ data] by simp
  moreover have "concat (splitLines [] data) @ lastPartial [] data = data"
    using splitLines_lastPartial [of "[]" data] by simp
  moreover have "nl \<notin> set (lastPartial [] data)"
    by (rule lastPartial_no_nl) simp
  ultimately show ?thesis by blast
qed

theorem lines_only_when_terminated_witness:
  "Canceled \<noteq> EOF
   \<and> logChan_loop ''ab\<newline>cd'' None [] = Some (ChanOpen [''ab\<newline>''])
   \<and> logChan_loop ''ab\<newline>cd'' (Some Canceled) [] = Some (ChanClosed [''ab\<newline>'', ''context canceled''])
   \<and> lastPartial [] ''ab\<newline>cd'' = ''cd''"
  using lines_only_when_terminated [of "''ab\<newline>cd''" Canceled]
  by (simp add: nl_def)

text \<open>
  The trailing partial line is not flushed: with \<open>cd\<close> buffered when the session is
  cancelled, the channel gets the complete line and the error entry only.
\<close>

theorem partial_line_dropped_counterexample:
  "logChan 5 [Tick (Inr [AString ''ab\<newline>c'', AInt64 4, ABool False]),
              Tick (Inr [AString ''ab\<newline>cd'', AInt64 5, ABool False]),
              Done CtxCanceled]
     = Some (Chan (ChanClosed [''ab\<newline>'', ''context canceled'']))
   \<and> ''cd'' \<notin> set [''ab\<newline>'', ''context canceled'']"
  by code_simp

text \<open>
  C9. A session ended by the context being done while the loop was polling closes the pipe
  with \<open>ctx.Err()\<close>, and the channel receives, after the complete lines, one entry with
  the description of that error before it is closed.
\<close>

theorem cancel_delivers_error_entry:
  assumes "tailLog tailLine 0 [] evs = Polling offset ws"
  shows "logChan tailLine (evs @ Done c # evs') =
           Some (Chan (ChanClosed (splitLines [] (concat ws) @ [Error (ctx_Err c)])))"
proof -
  have "tailLog tailLine 0 [] (evs @ Done c # evs') = Closed (ctx_Err c) ws"
    using tailLog_append [OF assms, of "Done c # evs'"] by (simp add: closeError_def)
  moreover have "ctx_Err c \<noteq> EOF" by (cases c) simp_all
  ultimately show ?thesis by (simp add: logChan_def logChan_loop_closed)
qed

theorem cancel_delivers_error_entry_witness:
  "tailLog 2 0 [] [Tick (Inr [AString ''a\<newline>b\<newline>c\<newline>'', AInt64 6, ABool False])]
     = Polling 6 [''b\<newline>c\<newline>'']
   \<and> logChan 2 ([Tick (Inr [AString ''a\<newline>b\<newline>c\<newline>'', AInt64 6, ABool False])] @ Done CtxCanceled # [])
     = Some (Chan (ChanClosed [''b\<newline>'', ''c\<newline>'', ''context canceled'']))"
proof -
  have t: "tailLog 2 0 [] [Tick (Inr [AString ''a\<newline>b\<newline>c\<newline>'', AInt64 6, ABool False])]
     = Polling 6 [''b\<newline>c\<newline>'']"
    by (simp add: firstRead_def Count_def nl_def SplitAfterN_def)
  from cancel_delivers_error_entry [OF t, of CtxCanceled "[]"] t show ?thesis
    by (simp add: nl_def)
qed

text \<open>
  So an entry describing the cancellation is delivered: a session cancelled before its
  first poll yields that entry alone.
\<close>

theorem cancel_counterexample:
  "logChan 2 [Done CtxCanceled] = Some (Chan (ChanClosed [''context canceled'']))"
  by (simp add: logChan_def closeError_def logChan_loop.simps ReadString_def)

text \<open>
  C10. While the polls report the end offset 0, the stored offset stays 0 and each chunk
  gets the seed trim of a first read; the first poll with another end offset is again
  handled as a first read (seed trim of the whole chunk, no delta by advance) and sets the
  offset.
\<close>

theorem zero_endOffset_stays_first:
  assumes K: "0 \<le> sint tailLine" and ds: "\<forall>x\<in>set ds. length x < 2 ^ 63" and d: "length d < 2 ^ 63"
  shows "tailLog tailLine 0 ws (map (\<lambda>x. Tick (Inr (AString x # AInt64 0 # more))) ds)
           = Polling 0 (ws @ filter (\<lambda>x. x \<noteq> []) (map (seedTrim (nat (sint tailLine))) ds))
       \<and> tailLog tailLine 0 ws
            (map (\<lambda>x. Tick (Inr (AString x # AInt64 0 # more))) ds
               @ Tick (Inr (AString d # AInt64 e # more)) # evs)
           = tailLog tailLine e
               (ws @ filter (\<lambda>x. x \<noteq> []) (map (seedTrim (nat (sint tailLine))) (ds @ [d]))) evs"
proof -
  have zeros: "tailLog tailLine 0 ws (map (\<lambda>x. Tick (Inr (AString x # AInt64 0 # more))) ds)
           = Polling 0 (ws @ filter (\<lambda>x. x \<noteq> []) (map (seedTrim (nat (sint tailLine))) ds))"
    using ds
  proof (induction ds arbitrary: ws)
    case Nil
    then show ?case by simp
  next
    case (Cons x xs)
    then have x: "length x < 2 ^ 63" and xs: "\<forall>x\<in>set xs. length x < 2 ^ 63" by simp_all
    show ?case
      using reconcile_first [OF x K, of 0 more] Cons.IH [OF xs]
      by (simp del: reconcile.simps)
  qed
  have last: "reconcile tailLine 0 (AString d # AInt64 e # more) = Data e (seedTrim (nat (sint tailLine)) d)"
    by (rule reconcile_first [OF d K])
  show ?thesis
    using zeros tailLog_append [OF zeros, of "Tick (Inr (AString d # AInt64 e # more)) # evs"] last
    by (simp del: reconcile.simps)
qed

theorem zero_endOffset_stays_first_witness:
  "0 \<le> sint (1 :: 64 word) \<and> length ([] :: string) < 2 ^ 63
   \<and> length ''a\<newline>b\<newline>c\<newline>'' < 2 ^ 63
   \<and> tailLog 1 0 [] [Tick (Inr [AString [], AInt64 0, ABool False]),
                      Tick (Inr [AString [], AInt64 0, ABool False])]
        = Polling 0 []
   \<and> tailLog 1 0 [] [Tick (Inr [AString [], AInt64 0, ABool False]),
                      Tick (Inr [AString [], AInt64 0, ABool False]),
                      Tick (Inr [AString ''a\<newline>b\<newline>c\<newline>'', AInt64 6, ABool False])]
        = Polling 6 [''c\<newline>'']"
  using zero_endOffset_stays_first [of 1 "[[], []]" "''a\<newline>b\<newline>c\<newline>''" "[]" "[ABool False]" 6 "[]"]
  by (simp add: seedTrim_def Count_def nl_def)

end
